theory Spec2Isabelle
  imports
    Complex_Main
    "HOL-Library.Char_ord"
    "HOL-Library.List_Lexorder"
    "HOL-Library.Product_Lexorder"
begin

section \<open>Parsed versions (the \<^verbatim>\<open>SemVer\<close> objects of the semver package)\<close>

text \<open>
  \<^verbatim>\<open>src/versions.ts\<close> works on \<^verbatim>\<open>SemVer\<close> objects produced by the
  semver package. An object carries the numeric triple, the list of prerelease
  identifiers and the build identifiers; its \<^verbatim>\<open>version\<close> string is the
  canonical rendering of triple and prerelease (the build is not part of it).

  A prerelease identifier is a JavaScript number when the parser read a numeric
  identifier and a string otherwise. (The package keeps a numeric identifier of
  \<open>2^53\<close> or more as a string and compares such strings as floating point
  numbers; these identifiers are not represented here.)
\<close>

datatype ident = IdNum nat | IdStr string

record SemVer =
  major :: nat
  minor :: nat
  patch :: nat
  prerelease :: "ident list"
  build :: "string list"

text \<open>Decimal rendering of a number, as a template literal or \<^verbatim>\<open>join\<close> prints it.\<close>

definition digit :: "nat \<Rightarrow> char" where
  "digit d = ''0123456789'' ! d"

fun show_nat :: "nat \<Rightarrow> string" where
  "show_nat n = (if n < 10 then [digit n] else show_nat (n div 10) @ [digit (n mod 10)])"

declare show_nat.simps [simp del]

fun show_ident :: "ident \<Rightarrow> string" where
  "show_ident (IdNum n) = show_nat n"
| "show_ident (IdStr s) = s"

text \<open>\<^verbatim>\<open>Array.prototype.join('.')\<close> on the rendered identifiers.\<close>

fun join_dot :: "string list \<Rightarrow> string" where
  "join_dot [] = []"
| "join_dot [x] = x"
| "join_dot (x # y # ys) = x @ ''.'' @ join_dot (y # ys)"

text \<open>
  \<^verbatim>\<open>SemVer.format()\<close>: \<^verbatim>\<open>major.minor.patch\<close>, followed by
  \<^verbatim>\<open>-\<close> and the joined prerelease identifiers when there are any.
\<close>

definition version :: "SemVer \<Rightarrow> string" where
  "version v =
     show_nat (major v) @ ''.'' @ show_nat (minor v) @ ''.'' @ show_nat (patch v) @
     (if prerelease v = [] then [] else ''-'' @ join_dot (map show_ident (prerelease v)))"

text \<open>
  What the parser guarantees about identifiers it keeps as strings: they hold no
  dot (the dot separates identifiers) and are not purely numeric (those become
  numbers).
\<close>

definition is_digit :: "char \<Rightarrow> bool" where
  "is_digit c = (c \<in> set ''0123456789'')"




section \<open>The ordering rule\<close>

text \<open>
  \<^verbatim>\<open>compareIdentifiers\<close> of the semver package: numbers before strings,
  numbers by value, strings by code unit.
\<close>

fun compareIdentifiers :: "ident \<Rightarrow> ident \<Rightarrow> int" where
  "compareIdentifiers (IdNum a) (IdNum b) = (if a = b then 0 else if a < b then - 1 else 1)"
| "compareIdentifiers (IdNum a) (IdStr b) = - 1"
| "compareIdentifiers (IdStr a) (IdNum b) = 1"
| "compareIdentifiers (IdStr a) (IdStr b) = (if a = b then 0 else if a < b then - 1 else 1)"

text \<open>
  \<^verbatim>\<open>SemVer.compareMain\<close>: the three numeric fields in turn; \<^verbatim>\<open>||\<close>
  moves on when a comparison gives 0.
\<close>

definition compareMain :: "SemVer \<Rightarrow> SemVer \<Rightarrow> int" where
  "compareMain a b =
     (let c1 = compareIdentifiers (IdNum (major a)) (IdNum (major b)) in
      if c1 \<noteq> 0 then c1
      else let c2 = compareIdentifiers (IdNum (minor a)) (IdNum (minor b)) in
        if c2 \<noteq> 0 then c2
        else compareIdentifiers (IdNum (patch a)) (IdNum (patch b)))"

text \<open>
  \<^verbatim>\<open>SemVer.comparePre\<close>: a version without prerelease is greater than one
  with; otherwise the identifiers are walked in step until they differ or one list
  ends.
\<close>

fun comparePreLoop :: "ident list \<Rightarrow> ident list \<Rightarrow> int" where
  "comparePreLoop [] [] = 0"
| "comparePreLoop (a # as) [] = 1"
| "comparePreLoop [] (b # bs) = - 1"
| "comparePreLoop (a # as) (b # bs) =
     (if a = b then comparePreLoop as bs else compareIdentifiers a b)"

definition comparePre :: "SemVer \<Rightarrow> SemVer \<Rightarrow> int" where
  "comparePre a b =
     (if prerelease a \<noteq> [] \<and> prerelease b = [] then - 1
      else if prerelease a = [] \<and> prerelease b \<noteq> [] then 1
      else if prerelease a = [] \<and> prerelease b = [] then 0
      else comparePreLoop (prerelease a) (prerelease b))"

text \<open>
  \<^verbatim>\<open>const [prea] = a.prerelease\<close>: the first identifier, \<^verbatim>\<open>undefined\<close>
  for the empty list.
\<close>

fun first_ident :: "ident list \<Rightarrow> ident option" where
  "first_ident [] = None"
| "first_ident (x # xs) = Some x"

definition nightly :: "ident option" where
  "nightly = Some (IdStr ''nightly'')"

definition compareVersions :: "SemVer \<Rightarrow> SemVer \<Rightarrow> int" where
  "compareVersions a b =
     (let l = compareMain a b in
      if l \<noteq> 0 then l
      else
        let prea = first_ident (prerelease a); preb = first_ident (prerelease b) in
        if prea = nightly \<and> preb \<noteq> nightly then - 1
        else if prea \<noteq> nightly \<and> preb = nightly then 1
        else comparePre a b)"

section \<open>JavaScript arrays, maps and sets\<close>

text \<open>
  \<^verbatim>\<open>Array.prototype.slice(start, end)\<close>: a negative index counts from the
  end, both indices are clamped to the array, an omitted \<^verbatim>\<open>end\<close> is the
  length.
\<close>

definition clamp_index :: "int \<Rightarrow> int \<Rightarrow> int" where
  "clamp_index len i = (if i < 0 then max (len + i) 0 else min i len)"

definition js_slice :: "'a list \<Rightarrow> int \<Rightarrow> int option \<Rightarrow> 'a list" where
  "js_slice xs start end_opt =
     (let len = int (length xs);
          k = clamp_index len start;
          fin = (case end_opt of None \<Rightarrow> len | Some e \<Rightarrow> clamp_index len e)
      in take (nat (fin - k)) (drop (nat k) xs))"

text \<open>\<^verbatim>\<open>xs[i]\<close>: \<^verbatim>\<open>undefined\<close> outside the array.\<close>

definition js_index :: "'a list \<Rightarrow> int \<Rightarrow> 'a option" where
  "js_index xs i = (if 0 \<le> i \<and> i < int (length xs) then Some (xs ! nat i) else None)"

text \<open>\<^verbatim>\<open>Array.prototype.findIndex\<close>: the first index that satisfies, or -1.\<close>

fun findIndexFrom :: "('a \<Rightarrow> bool) \<Rightarrow> int \<Rightarrow> 'a list \<Rightarrow> int" where
  "findIndexFrom p k [] = - 1"
| "findIndexFrom p k (x # xs) = (if p x then k else findIndexFrom p (k + 1) xs)"

definition findIndex :: "('a \<Rightarrow> bool) \<Rightarrow> 'a list \<Rightarrow> int" where
  "findIndex p xs = findIndexFrom p 0 xs"

text \<open>
  \<^verbatim>\<open>Array.prototype.sort(cmp)\<close> is stable; with a consistent comparator its
  result is the stable sorting of the input, which insertion from the left computes
  (an element goes behind the elements it does not precede).
\<close>

fun insert_by :: "('a \<Rightarrow> 'a \<Rightarrow> int) \<Rightarrow> 'a \<Rightarrow> 'a list \<Rightarrow> 'a list" where
  "insert_by cmp x [] = [x]"
| "insert_by cmp x (y # ys) = (if cmp x y < 0 then x # y # ys else y # insert_by cmp x ys)"

definition js_sort :: "('a \<Rightarrow> 'a \<Rightarrow> int) \<Rightarrow> 'a list \<Rightarrow> 'a list" where
  "js_sort cmp xs = foldl (\<lambda>acc x. insert_by cmp x acc) [] xs"

text \<open>
  A \<^verbatim>\<open>Map\<close> iterates in insertion order; \<^verbatim>\<open>set\<close> on a key that is
  present replaces the value where it stands, and appends otherwise.
\<close>

fun map_set :: "'k \<Rightarrow> 'v \<Rightarrow> ('k \<times> 'v) list \<Rightarrow> ('k \<times> 'v) list" where
  "map_set k v [] = [(k, v)]"
| "map_set k v ((k', v') # m) = (if k' = k then (k, v) # m else (k', v') # map_set k v m)"

definition map_clear :: "('k \<times> 'v) list \<Rightarrow> ('k \<times> 'v) list" where
  "map_clear m = []"

definition map_has :: "('k \<times> 'v) list \<Rightarrow> 'k \<Rightarrow> bool" where
  "map_has m k = (k \<in> set (map fst m))"

definition map_values :: "('k \<times> 'v) list \<Rightarrow> 'v list" where
  "map_values m = map snd m"

text \<open>A \<^verbatim>\<open>Set\<close> iterates in insertion order too.\<close>

definition set_add :: "'a \<Rightarrow> 'a list \<Rightarrow> 'a list" where
  "set_add x s = (if x \<in> set s then s else s @ [x])"

definition set_delete :: "'a \<Rightarrow> 'a list \<Rightarrow> 'a list" where
  "set_delete x s = removeAll x s"

section \<open>The catalog (class \<^verbatim>\<open>BaseVersions\<close>)\<close>

text \<open>
  The document handed to \<^verbatim>\<open>setVersions\<close> has type \<^verbatim>\<open>unknown\<close>: any
  JSON value. (The value of a number plays no role.) The fields of an object are
  listed in the order of the document; the last binding of a key is its value.
\<close>

datatype json =
  JNull | JBool bool | JNumber int | JString string | JArray "json list"
| JObject "(string \<times> json) list"

definition obj_get :: "(string \<times> json) list \<Rightarrow> string \<Rightarrow> json option" where
  "obj_get fs k = map_of (rev fs) k"

fun hasVersion :: "json \<Rightarrow> bool" where
  "hasVersion (JObject fs) = (obj_get fs ''version'' \<noteq> None)"
| "hasVersion _ = False"

fun version_field :: "json \<Rightarrow> string option" where
  "version_field (JObject fs) =
     (case obj_get fs ''version'' of Some (JString s) \<Rightarrow> Some s | _ \<Rightarrow> None)"
| "version_field _ = None"

fun string_value :: "json \<Rightarrow> string option" where
  "string_value (JString s) = Some s"
| "string_value _ = None"

fun isArrayOfVersionObjects :: "json \<Rightarrow> bool" where
  "isArrayOfVersionObjects (JArray items) =
     list_all (\<lambda>item. hasVersion item \<and> version_field item \<noteq> None) items"
| "isArrayOfVersionObjects _ = False"

fun isArrayOfStrings :: "json \<Rightarrow> bool" where
  "isArrayOfStrings (JArray items) = list_all (\<lambda>item. string_value item \<noteq> None) items"
| "isArrayOfStrings _ = False"

fun array_items :: "json \<Rightarrow> json list" where
  "array_items (JArray items) = items"
| "array_items _ = []"

definition NUM_SUPPORTED_MAJORS :: int where
  "NUM_SUPPORTED_MAJORS = 4"

type_synonym catalog = "(string \<times> SemVer) list"

text \<open>
  \<^verbatim>\<open>semverParse\<close> belongs to the semver package: it is a parameter, a
  function from strings to parsed versions that gives \<^verbatim>\<open>null\<close> on a string
  it does not accept.
\<close>

type_synonym parser = "string \<Rightarrow> SemVer option"

definition parse_items :: "parser \<Rightarrow> json \<Rightarrow> SemVer option list" where
  "parse_items semverParse val =
     (if isArrayOfVersionObjects val then
        map (\<lambda>item. case version_field item of Some s \<Rightarrow> semverParse s | None \<Rightarrow> None)
          (array_items val)
      else if isArrayOfStrings val then
        map (\<lambda>item. case string_value item of Some s \<Rightarrow> semverParse s | None \<Rightarrow> None)
          (array_items val)
      else [])"

definition setVersions :: "parser \<Rightarrow> json \<Rightarrow> catalog \<Rightarrow> catalog" where
  "setVersions semverParse val m =
     (let parsed = parse_items semverParse val;
          semvers = js_sort compareVersions (List.map_filter id parsed)
      in foldl (\<lambda>m sem. map_set (version sem) sem m) (map_clear m) semvers)"

text \<open>The constructor: a fresh map, then \<^verbatim>\<open>setVersions\<close>.\<close>

definition BaseVersions :: "parser \<Rightarrow> json \<Rightarrow> catalog" where
  "BaseVersions semverParse val = setVersions semverParse val []"

definition prereleaseMajors :: "catalog \<Rightarrow> nat list" where
  "prereleaseMajors m =
     (let majors = foldl (\<lambda>s ver. set_add (major ver) s) [] (map_values m)
      in foldl (\<lambda>s ver. if prerelease ver = [] then set_delete (major ver) s else s)
           majors (map_values m))"

definition stableMajors :: "catalog \<Rightarrow> nat list" where
  "stableMajors m =
     foldl (\<lambda>s ver. if prerelease ver = [] then set_add (major ver) s else s) []
       (map_values m)"

definition supportedMajors :: "catalog \<Rightarrow> nat list" where
  "supportedMajors m = js_slice (stableMajors m) (- NUM_SUPPORTED_MAJORS) None"

definition obsoleteMajors :: "catalog \<Rightarrow> nat list" where
  "obsoleteMajors m = js_slice (stableMajors m) 0 (Some (- NUM_SUPPORTED_MAJORS))"

definition versions :: "catalog \<Rightarrow> SemVer list" where
  "versions m = map_values m"

datatype SemOrStr = Sem SemVer | Str string

fun to_string :: "SemOrStr \<Rightarrow> string" where
  "to_string (Sem v) = version v"
| "to_string (Str s) = s"

definition isVersion :: "catalog \<Rightarrow> SemOrStr \<Rightarrow> bool" where
  "isVersion m ver = map_has m (to_string ver)"

definition inMajor :: "catalog \<Rightarrow> nat \<Rightarrow> SemVer list" where
  "inMajor m mj = filter (\<lambda>ver. major ver = mj) (map_values m)"

definition inRange :: "catalog \<Rightarrow> SemOrStr \<Rightarrow> SemOrStr \<Rightarrow> SemVer list" where
  "inRange m a b =
     (let a' = to_string a; b' = to_string b;
          vs = map_values m;
          first = findIndex (\<lambda>ver. version ver = a') vs;
          last = findIndex (\<lambda>ver. version ver = b') vs;
          (first, last) = (if first > last then (last, first) else (first, last))
      in js_slice vs first (Some (last + 1)))"

section \<open>Running one test (\<^verbatim>\<open>Runner.spawn\<close>, \<^verbatim>\<open>Runner.run\<close>)\<close>

datatype test_status = test_passed | test_failed | test_error | system_error

record TestResult =
  status :: test_status

datatype bisect_status = bisect_succeeded | bisect_test_error | bisect_system_error

record BisectResult =
  bisect_range :: "(string \<times> string) option"
  bisect_status :: bisect_status

text \<open>A resolved payload, and what a caller may hand in: a payload or a descriptor.\<close>

record Fiddle =
  mainPath :: string
  source :: string

datatype FiddleSource = SrcFiddle Fiddle | SrcString string

text \<open>What the code throws.\<close>

datatype exn =
  TypeError \<comment> \<open>a property read on \<^verbatim>\<open>undefined\<close>\<close>
| InvalidFiddle \<comment> \<open>\<^verbatim>\<open>Invalid fiddle: ...\<close>\<close>
| UnrecognizedElectron string \<comment> \<open>\<^verbatim>\<open>Unrecognized electron name: ...\<close>\<close>
| InstallError string \<comment> \<open>what the installer rejects with\<close>

text \<open>
  The first event of a child process that \<^verbatim>\<open>run\<close> listens for: \<^verbatim>\<open>error\<close>,
  or \<^verbatim>\<open>exit\<close> with a code (\<^verbatim>\<open>null\<close> when a signal ended the process).
\<close>

datatype child_event = ErrorEvent | ExitEvent "int option"

text \<open>
  The collaborators of a runner, which other modules and the platform provide:
  \<^verbatim>\<open>fiddleFactory.create\<close>; the file system (\<^verbatim>\<open>fs.statSync\<close>, which
  throws on a missing path and otherwise tells whether the path is a directory, and
  \<^verbatim>\<open>fs.existsSync\<close>); the installer (\<^verbatim>\<open>Installer.getExecPath\<close> and
  \<^verbatim>\<open>installer.install\<close>); the operating system that runs the child
  (\<^verbatim>\<open>child_process.spawn\<close> with the executable and its arguments); and
  \<^verbatim>\<open>process.platform\<close>.
\<close>

record collaborators =
  create :: "FiddleSource \<Rightarrow> Fiddle option"
  statSync :: "string \<Rightarrow> bool option"
  existsSync :: "string \<Rightarrow> bool"
  getExecPath :: "string \<Rightarrow> string"
  install :: "string \<Rightarrow> exn + string"
  child :: "string \<Rightarrow> string list \<Rightarrow> child_event"
  platform :: string

text \<open>
  \<^verbatim>\<open>Runner.getExec\<close>: a path that exists and is no directory is run as it
  is; a directory is searched for its executable; a path that does not exist is
  installed when it is a known version. The runner's catalog is \<open>m\<close>.
\<close>

definition getExec :: "collaborators \<Rightarrow> catalog \<Rightarrow> string \<Rightarrow> exn + string" where
  "getExec E m electron =
     (case statSync E electron of
        Some isDirectory \<Rightarrow>
          if \<not> isDirectory then Inr electron
          else if existsSync E (getExecPath E electron) then Inr (getExecPath E electron)
          else Inl (UnrecognizedElectron electron)
      | None \<Rightarrow>
          if isVersion m (Str electron) then install E electron
          else Inl (UnrecognizedElectron electron))"

record RunnerOptions =
  args :: "string list"
  headless :: bool

definition DefaultRunnerOpts :: RunnerOptions where
  "DefaultRunnerOpts = \<lparr>args = [], headless = False\<rparr>"

definition headless_wrap :: "string \<Rightarrow> string \<Rightarrow> string list \<Rightarrow> string \<times> string list" where
  "headless_wrap plat exec as =
     (if plat \<noteq> ''darwin'' \<and> plat \<noteq> ''win32''
      then (''xvfb-run'', ''--auto-servernum'' # exec # as)
      else (exec, as))"

text \<open>
  \<^verbatim>\<open>spawn\<close> resolves its payload argument through the factory, whatever it is
  handed. The list \<open>calls\<close> records every argument the factory is called with.
\<close>

definition spawn ::
  "collaborators \<Rightarrow> catalog \<Rightarrow> string \<Rightarrow> FiddleSource \<Rightarrow> RunnerOptions \<Rightarrow> FiddleSource list
     \<Rightarrow> FiddleSource list \<times> (exn + child_event)" where
  "spawn E m ver fiddleIn opts calls =
     (let calls' = calls @ [fiddleIn] in
      case create E fiddleIn of
        None \<Rightarrow> (calls', Inl InvalidFiddle)
      | Some fiddle \<Rightarrow>
          (case getExec E m ver of
             Inl e \<Rightarrow> (calls', Inl e)
           | Inr electronExec \<Rightarrow>
               let as = args opts @ [mainPath fiddle];
                   (exec, as) = (if headless opts then headless_wrap (platform E) electronExec as
                                 else (electronExec, as))
               in (calls', Inr (child E exec as))))"

definition run ::
  "collaborators \<Rightarrow> catalog \<Rightarrow> string \<Rightarrow> FiddleSource \<Rightarrow> RunnerOptions \<Rightarrow> FiddleSource list
     \<Rightarrow> FiddleSource list \<times> (exn + TestResult)" where
  "run E m ver fiddle opts calls =
     (case spawn E m ver fiddle opts calls of
        (calls', Inl e) \<Rightarrow> (calls', Inl e)
      | (calls', Inr ErrorEvent) \<Rightarrow> (calls', Inr \<lparr>status = system_error\<rparr>)
      | (calls', Inr (ExitEvent code)) \<Rightarrow>
          (calls',
           Inr (if code = Some 0 then \<lparr>status = test_passed\<rparr>
                else if code = Some 1 then \<lparr>status = test_failed\<rparr>
                else \<lparr>status = test_error\<rparr>)))"

section \<open>Bisection (\<^verbatim>\<open>Runner.bisect\<close>)\<close>

text \<open>
  One session of \<^verbatim>\<open>bisect\<close>. What is written to the log sink is left out:
  it has no effect on the variables or on the result. A child is given by the first
  event it emits; a session tests no version twice, so that a child is a function
  of its executable and arguments is no restriction.

  \<^verbatim>\<open>Math.round\<close> rounds a half up.
\<close>

definition js_round :: "rat \<Rightarrow> int" where
  "js_round x = \<lfloor>x + 1 / 2\<rfloor>"

definition midpoint :: "int \<Rightarrow> int \<Rightarrow> int" where
  "midpoint l r = js_round (of_int l + of_int (r - l) / 2)"

text \<open>
  The variables of the loop. \<open>results\<close> is the array created with
  \<^verbatim>\<open>new Array(versions.length)\<close>: every slot is empty until it is assigned.
\<close>

record bisect_state =
  left :: int
  right :: int
  result :: "TestResult option"
  testOrder :: "int list"
  results :: "int \<Rightarrow> TestResult option"
  calls :: "FiddleSource list"

function bisect_loop ::
  "collaborators \<Rightarrow> catalog \<Rightarrow> RunnerOptions \<Rightarrow> SemVer list \<Rightarrow> Fiddle \<Rightarrow> bisect_state
     \<Rightarrow> exn option \<times> bisect_state" where
  "bisect_loop E m opts vs fiddle s =
     (if left s + 1 < right s then
        let mid = midpoint (left s) (right s);
            s1 = s\<lparr>testOrder := testOrder s @ [mid]\<rparr>
        in case js_index vs mid of
             None \<Rightarrow> (Some TypeError, s1)
           | Some ver \<Rightarrow>
               (case run E m (version ver) (SrcFiddle fiddle) opts (calls s1) of
                  (calls', Inl e) \<Rightarrow> (Some e, s1\<lparr>calls := calls'\<rparr>)
                | (calls', Inr r) \<Rightarrow>
                    let s2 = s1\<lparr>calls := calls', result := Some r,
                                 results := (results s1)(mid := Some r)\<rparr>
                    in if status r = test_passed then
                         bisect_loop E m opts vs fiddle (s2\<lparr>left := mid\<rparr>)
                       else if status r = test_failed then
                         bisect_loop E m opts vs fiddle (s2\<lparr>right := mid\<rparr>)
                       else (None, s2))
      else (None, s))"
  by pat_completeness auto

text \<open>
  After the loop the tested versions are reported: for every index of the slice
  that was tested, \<^verbatim>\<open>displayResult(results[i])\<close> reads the status of the
  recorded result.
\<close>

definition report_ok :: "SemVer list \<Rightarrow> bisect_state \<Rightarrow> bool" where
  "report_ok vs s =
     list_all (\<lambda>i. results s (int i) \<noteq> None)
       (filter (\<lambda>i. int i \<in> set (testOrder s)) [0..<length vs])"

text \<open>
  The end of \<^verbatim>\<open>bisect\<close>: \<^verbatim>\<open>results[left].status\<close> and
  \<^verbatim>\<open>results[right].status\<close> are read without a check, the second only when
  the first is \<^verbatim>\<open>test_passed\<close>.
\<close>

definition bisect_finish :: "SemVer list \<Rightarrow> bisect_state \<Rightarrow> exn + BisectResult" where
  "bisect_finish vs s =
     (if \<not> report_ok vs s then Inl TypeError
      else case results s (left s) of
        None \<Rightarrow> Inl TypeError
      | Some rl \<Rightarrow>
          (case (if status rl = test_passed
                 then (case results s (right s) of
                         None \<Rightarrow> Inl TypeError
                       | Some rr \<Rightarrow> Inr (status rr = test_failed))
                 else Inr False) of
             Inl e \<Rightarrow> Inl e
           | Inr success \<Rightarrow>
               if success then
                 (case (js_index vs (left s), js_index vs (right s)) of
                    (Some good, Some bad) \<Rightarrow>
                      Inr \<lparr>bisect_range = Some (version good, version bad),
                           bisect_status = bisect_succeeded\<rparr>
                  | _ \<Rightarrow> Inl TypeError)
               else if map_option status (result s) = Some test_error then
                 Inr \<lparr>bisect_range = None, bisect_status = bisect_test_error\<rparr>
               else if map_option status (result s) = Some system_error then
                 Inr \<lparr>bisect_range = None, bisect_status = bisect_system_error\<rparr>
               else Inr \<lparr>bisect_range = None, bisect_status = bisect_system_error\<rparr>))"

text \<open>
  A session: what \<^verbatim>\<open>bisect\<close> returns or throws, with the variables as the
  session left them.
\<close>

definition bisect ::
  "collaborators \<Rightarrow> catalog \<Rightarrow> SemOrStr \<Rightarrow> SemOrStr \<Rightarrow> FiddleSource \<Rightarrow> RunnerOptions
     \<Rightarrow> (exn + BisectResult) \<times> bisect_state" where
  "bisect E m version_a version_b fiddleIn opts =
     (let vs = inRange m version_a version_b;
          s0 = \<lparr>left = 0, right = int (length vs) - 1, result = None, testOrder = [],
                results = (\<lambda>i. None), calls = [fiddleIn]\<rparr>
      in case create E fiddleIn of
           None \<Rightarrow> (Inl InvalidFiddle, s0)
         | Some fiddle \<Rightarrow>
             (case bisect_loop E m opts vs fiddle s0 of
                (Some e, s) \<Rightarrow> (Inl e, s)
              | (None, s) \<Rightarrow> (bisect_finish vs s, s)))"

section \<open>Auxiliary notions of the proofs\<close>

text \<open>The value of a digit and of a decimal numeral.\<close>

definition digit_val :: "char \<Rightarrow> nat" where
  "digit_val c = of_char c - 48"

definition dec_val :: "string \<Rightarrow> nat" where
  "dec_val s = foldl (\<lambda>a c. 10 * a + digit_val c) 0 s"


definition pre_suffix :: "SemVer \<Rightarrow> string" where
  "pre_suffix v =
     (if prerelease v = [] then [] else ''-'' @ join_dot (map show_ident (prerelease v)))"

text \<open>
  The ordering rule as a lexicographic order: the triple, then nightly before the
  rest, then prerelease before stable, then the identifiers.
\<close>

fun enc_ident :: "ident \<Rightarrow> nat \<times> nat \<times> string" where
  "enc_ident (IdNum n) = (0, n, [])"
| "enc_ident (IdStr s) = (1, 0, s)"

definition enc_version ::
  "SemVer \<Rightarrow> nat \<times> nat \<times> nat \<times> nat \<times> nat \<times> (nat \<times> nat \<times> string) list" where
  "enc_version v =
     (major v, minor v, patch v,
      (if first_ident (prerelease v) = nightly then 0 else 1),
      (if prerelease v = [] then 1 else 0),
      map enc_ident (prerelease v))"

definition cmp3 :: "'a::linorder \<Rightarrow> 'a \<Rightarrow> int" where
  "cmp3 x y = (if x = y then 0 else if x < y then - 1 else 1)"

text \<open>Four versions of the examples below.\<close>

definition v12_nightly :: SemVer where
  "v12_nightly = \<lparr>major = 12, minor = 0, patch = 0,
     prerelease = [IdStr ''nightly'', IdNum 7], build = []\<rparr>"

definition v12_beta :: SemVer where
  "v12_beta = \<lparr>major = 12, minor = 0, patch = 0,
     prerelease = [IdStr ''beta'', IdNum 1], build = []\<rparr>"

definition v12_stable :: SemVer where
  "v12_stable = \<lparr>major = 12, minor = 0, patch = 0, prerelease = [], build = []\<rparr>"

definition v13_nightly :: SemVer where
  "v13_nightly = \<lparr>major = 13, minor = 0, patch = 0,
     prerelease = [IdStr ''nightly'', IdNum 1], build = []\<rparr>"

text \<open>
  The map is keyed by the canonical string of its value (what
  \<^verbatim>\<open>this.map.set(sem.version, sem)\<close> maintains), and \<open>load\<close> is the loop that
  fills it.
\<close>

definition keys_canonical :: "catalog \<Rightarrow> bool" where
  "keys_canonical m = list_all (\<lambda>(k, v). k = version v) m"

definition load :: "catalog \<Rightarrow> SemVer list \<Rightarrow> catalog" where
  "load m xs = foldl (\<lambda>m sem. map_set (version sem) sem m) m xs"


text \<open>A parser given by a table, and two documents: strings, and release records.\<close>

definition semver :: "nat \<Rightarrow> nat \<Rightarrow> nat \<Rightarrow> ident list \<Rightarrow> SemVer" where
  "semver mj mn pt pre = \<lparr>major = mj, minor = mn, patch = pt, prerelease = pre, build = []\<rparr>"

definition demo_table :: "(string \<times> SemVer) list" where
  "demo_table =
     [(''8.0.0'', semver 8 0 0 []), (''9.0.0'', semver 9 0 0 []), (''10.0.0'', semver 10 0 0 []),
      (''11.0.0'', semver 11 0 0 []),
      (''12.0.0-nightly.7'', v12_nightly), (''12.0.0-beta.1'', v12_beta),
      (''12.0.0'', v12_stable), (''12.0.0+b5'', v12_stable\<lparr>build := [''b5'']\<rparr>),
      (''13.0.0-nightly.1'', v13_nightly)]"

definition demo_parse :: parser where
  "demo_parse s = map_of demo_table s"

definition demo_strings :: json where
  "demo_strings = JArray [JString ''13.0.0-nightly.1'', JString ''12.0.0'', JString ''latest'',
     JString ''12.0.0-beta.1'', JString ''12.0.0+b5'', JString ''12.0.0-nightly.7'']"

definition demo_releases :: json where
  "demo_releases = JArray (map (\<lambda>s. JObject [(''version'', JString s), (''date'', JNull)])
     [''13.0.0-nightly.1'', ''10.0.0'', ''12.0.0'', ''8.0.0'', ''12.0.0-beta.1'', ''11.0.0'',
      ''9.0.0'', ''12.0.0-nightly.7''])"

text \<open>The loop of \<^verbatim>\<open>stableMajors\<close>, from any set of majors.\<close>

definition stable_fold :: "nat list \<Rightarrow> SemVer list \<Rightarrow> nat list" where
  "stable_fold s vs = foldl (\<lambda>s ver. if prerelease ver = [] then set_add (major ver) s else s) s vs"

text \<open>A recorded outcome that moves the window.\<close>

definition conclusive :: "TestResult option \<Rightarrow> bool" where
  "conclusive r \<longleftrightarrow>
     map_option status r = Some test_passed \<or> map_option status r = Some test_failed"

text \<open>
  What holds of the variables whenever the loop condition is evaluated, for a slice
  \<open>vs\<close>, the caller's descriptor and the payload resolved from it: the window lies
  inside the slice; the tested indices are interior, outside the open window, each
  with a recorded result that passed or failed, and only they have one; no index was tested twice; the
  left end is 0 or passed, the right end is the last index or failed; and the
  resolver was called once by \<^verbatim>\<open>bisect\<close> and once per test.
\<close>

definition loop_inv :: "SemVer list \<Rightarrow> FiddleSource \<Rightarrow> Fiddle \<Rightarrow> bisect_state \<Rightarrow> bool" where
  "loop_inv vs fiddleIn fiddle s \<longleftrightarrow>
     0 \<le> left s \<and> right s \<le> int (length vs) - 1
     \<and> (\<forall>i \<in> set (testOrder s).
           0 < i \<and> i < int (length vs) - 1 \<and> (i \<le> left s \<or> right s \<le> i)
           \<and> conclusive (results s i))
     \<and> (\<forall>i. results s i \<noteq> None \<longrightarrow> i \<in> set (testOrder s))
     \<and> distinct (testOrder s)
     \<and> (left s = 0 \<or> map_option status (results s (left s)) = Some test_passed)
     \<and> (right s = int (length vs) - 1 \<or> map_option status (results s (right s)) = Some test_failed)
     \<and> calls s = fiddleIn # replicate (length (testOrder s)) (SrcFiddle fiddle)"

text \<open>
  What holds when the loop is left, with the exception it was left by, if any: as
  before, but the last test may have been inconclusive or thrown.
\<close>

definition loop_final ::
  "SemVer list \<Rightarrow> FiddleSource \<Rightarrow> Fiddle \<Rightarrow> exn option \<Rightarrow> bisect_state \<Rightarrow> bool" where
  "loop_final vs fiddleIn fiddle e s \<longleftrightarrow>
     0 \<le> left s \<and> right s \<le> int (length vs) - 1
     \<and> (\<forall>i \<in> set (testOrder s). 0 < i \<and> i < int (length vs) - 1)
     \<and> (\<forall>i. results s i \<noteq> None \<longrightarrow> i \<in> set (testOrder s))
     \<and> (e = None \<longrightarrow> (\<forall>i \<in> set (testOrder s). results s i \<noteq> None))
     \<and> (\<forall>i \<in> set (butlast (testOrder s)). conclusive (results s i))
     \<and> distinct (testOrder s)
     \<and> (left s = 0 \<or> map_option status (results s (left s)) = Some test_passed)
     \<and> (right s = int (length vs) - 1 \<or> map_option status (results s (right s)) = Some test_failed)
     \<and> calls s = fiddleIn # replicate (length (testOrder s)) (SrcFiddle fiddle)"

text \<open>The variables before the first iteration.\<close>

definition initial_state :: "SemVer list \<Rightarrow> FiddleSource \<Rightarrow> bisect_state" where
  "initial_state vs fiddleIn =
     \<lparr>left = 0, right = int (length vs) - 1, result = None, testOrder = [],
      results = (\<lambda>i. None), calls = [fiddleIn]\<rparr>"

text \<open>
  Collaborators of the examples: a factory that knows one descriptor, an empty file
  system, an installer that has every version, and a table of what the child does
  for an executable.
\<close>

definition demo_fiddle :: Fiddle where
  "demo_fiddle = \<lparr>mainPath = ''/fiddles/demo/main.js'', source = ''gist:demo''\<rparr>"

definition demo_env :: "(string \<times> child_event) list \<Rightarrow> collaborators" where
  "demo_env outcomes =
     \<lparr>create = (\<lambda>src. case src of
                  SrcFiddle f \<Rightarrow> Some f
                | SrcString s \<Rightarrow> if s = ''gist:demo'' then Some demo_fiddle else None),
      statSync = (\<lambda>path. None),
      existsSync = (\<lambda>path. False),
      getExecPath = (\<lambda>dir. dir @ ''/electron''),
      install = (\<lambda>ver. Inr (''/electron/'' @ ver)),
      child = (\<lambda>exec as. case map_of outcomes exec of Some ev \<Rightarrow> ev | None \<Rightarrow> ErrorEvent),
      platform = ''linux''\<rparr>"

definition demo_catalog :: catalog where
  "demo_catalog = BaseVersions demo_parse demo_releases"

section \<open>The midpoint, and termination of the loop\<close>

lemma midpoint_eq: "midpoint l r = l + (r - l + 1) div 2"
proof -
  have "(of_int l + of_int (r - l) / 2 + 1 / 2 :: rat) = of_int l + of_int (r - l + 1) / 2"
    by (simp add: add_divide_distrib)
  then have "midpoint l r = \<lfloor>(of_int l + of_int (r - l + 1) / 2 :: rat)\<rfloor>"
    unfolding midpoint_def js_round_def by (rule arg_cong)
  also have "\<dots> = l + \<lfloor>(of_int (r - l + 1) / 2 :: rat)\<rfloor>"
    by (rule int_add_floor[symmetric])
  also have "\<lfloor>(of_int (r - l + 1) / 2 :: rat)\<rfloor> = (r - l + 1) div 2"
    using floor_divide_of_int_eq[of "r - l + 1" 2, where ?'a = rat] by simp
  finally show ?thesis .
qed

lemma midpoint_between: "l + 1 < r \<Longrightarrow> l < midpoint l r \<and> midpoint l r < r"
  by (simp add: midpoint_eq) linarith

termination bisect_loop
  by (relation "measure (\<lambda>(E, m, opts, vs, fiddle, s). nat (right s - left s))")
    (auto simp: midpoint_eq)

declare bisect_loop.simps [simp del]

section \<open>Canonical strings determine the version\<close>

lemma lt10:
  "(d::nat) < 10 \<Longrightarrow>
     d = 0 \<or> d = 1 \<or> d = 2 \<or> d = 3 \<or> d = 4 \<or> d = 5 \<or> d = 6 \<or> d = 7 \<or> d = 8 \<or> d = 9"
  by arith

lemma digit_val_digit: "d < 10 \<Longrightarrow> digit_val (digit d) = d"
  by (drule lt10) (auto simp: digit_def digit_val_def)

lemma is_digit_digit: "d < 10 \<Longrightarrow> is_digit (digit d)"
  by (drule lt10) (auto simp: digit_def is_digit_def)

lemma show_nat_digits: "list_all is_digit (show_nat n)"
  by (induction n rule: show_nat.induct) (subst show_nat.simps, simp add: is_digit_digit)



lemma dec_val_show_nat: "dec_val (show_nat n) = n"
proof (induction n rule: show_nat.induct)
  case (1 n)
  show ?case
  proof (cases "n < 10")
    case True
    then show ?thesis by (subst show_nat.simps) (simp add: dec_val_def digit_val_digit)
  next
    case False
    with 1 have "dec_val (show_nat (n div 10)) = n div 10" by simp
    with False show ?thesis
      by (subst show_nat.simps) (simp add: dec_val_def digit_val_digit)
  qed
qed

lemma show_nat_inj: "show_nat n = show_nat m \<Longrightarrow> n = m"
  by (metis dec_val_show_nat)

text \<open>A string splits in one way at its first character outside a class.\<close>

lemma split_at_first:
  assumes "list_all P xs" "list_all P xs'"
    and "ys = [] \<or> \<not> P (hd ys)" "ys' = [] \<or> \<not> P (hd ys')"
    and "xs @ ys = xs' @ ys'"
  shows "xs = xs' \<and> ys = ys'"
  using assms
proof (induction xs arbitrary: xs')
  case Nil
  then show ?case by (cases xs') auto
next
  case (Cons x xs)
  then show ?case by (cases xs') auto
qed



lemma not_digit: "\<not> is_digit (CHR ''.'')" "\<not> is_digit (CHR ''-'')"
  by (simp_all add: is_digit_def)





lemma version_alt:
  "version v =
     show_nat (major v) @ (''.'' @ show_nat (minor v) @ (''.'' @ show_nat (patch v) @ pre_suffix v))"
  by (simp add: version_def pre_suffix_def)

lemma version_triple:
  assumes "version a = version b"
  shows "major a = major b" "minor a = minor b" "patch a = patch b"
    "pre_suffix a = pre_suffix b"
proof -
  let ?ra = "''.'' @ show_nat (minor a) @ (''.'' @ show_nat (patch a) @ pre_suffix a)"
  let ?rb = "''.'' @ show_nat (minor b) @ (''.'' @ show_nat (patch b) @ pre_suffix b)"
  have "show_nat (major a) = show_nat (major b) \<and> ?ra = ?rb"
    by (rule split_at_first[where P = is_digit])
      (use assms in \<open>simp_all add: show_nat_digits not_digit version_alt\<close>)
  then have m: "show_nat (major a) = show_nat (major b)" and r: "?ra = ?rb" by auto
  from m show "major a = major b" by (rule show_nat_inj)
  let ?sa = "''.'' @ show_nat (patch a) @ pre_suffix a"
  let ?sb = "''.'' @ show_nat (patch b) @ pre_suffix b"
  from r have r': "show_nat (minor a) @ ?sa = show_nat (minor b) @ ?sb" by simp
  have "show_nat (minor a) = show_nat (minor b) \<and> ?sa = ?sb"
    by (rule split_at_first[where P = is_digit, OF _ _ _ _ r'])
      (simp_all add: show_nat_digits not_digit)
  then have n: "show_nat (minor a) = show_nat (minor b)" and s: "?sa = ?sb" by auto
  from n show "minor a = minor b" by (rule show_nat_inj)
  from s have s': "show_nat (patch a) @ pre_suffix a = show_nat (patch b) @ pre_suffix b"
    by simp
  have "show_nat (patch a) = show_nat (patch b) \<and> pre_suffix a = pre_suffix b"
    by (rule split_at_first[where P = is_digit, OF _ _ _ _ s'])
      (simp_all add: show_nat_digits not_digit pre_suffix_def)
  then show "patch a = patch b" "pre_suffix a = pre_suffix b"
    by (auto dest: show_nat_inj)
qed



section \<open>The ordering rule is a lexicographic order\<close>

lemma compareIdentifiers_cmp3: "compareIdentifiers a b = cmp3 (enc_ident a) (enc_ident b)"
  by (cases a; cases b) (auto simp: cmp3_def)

lemma enc_ident_inj: "enc_ident a = enc_ident b \<longleftrightarrow> a = b"
  by (cases a; cases b) auto


lemma comparePreLoop_cmp3: "comparePreLoop xs ys = cmp3 (map enc_ident xs) (map enc_ident ys)"
  by (induction xs ys rule: comparePreLoop.induct)
    (auto simp: cmp3_def compareIdentifiers_cmp3 enc_ident_inj)

lemma first_ident_nightly: "first_ident xs = nightly \<Longrightarrow> xs \<noteq> []"
  by (cases xs) (auto simp: nightly_def)

lemma compareMain_cmp3:
  "compareMain a b = cmp3 (major a, minor a, patch a) (major b, minor b, patch b)"
  by (auto simp: compareMain_def cmp3_def Let_def)

lemma compareVersions_cmp3: "compareVersions a b = cmp3 (enc_version a) (enc_version b)"
  unfolding compareVersions_def Let_def compareMain_cmp3 comparePre_def comparePreLoop_cmp3
  by (auto simp: cmp3_def enc_version_def dest: first_ident_nightly)



lemma cmp3_less: "cmp3 x y < 0 \<longleftrightarrow> x < y"
  by (auto simp: cmp3_def)

lemma cmp3_le: "cmp3 x y \<le> 0 \<longleftrightarrow> x \<le> y"
  by (auto simp: cmp3_def)


lemma compareVersions_less: "compareVersions a b < 0 \<longleftrightarrow> enc_version a < enc_version b"
  by (simp add: compareVersions_cmp3 cmp3_less)

lemma compareVersions_le: "compareVersions a b \<le> 0 \<longleftrightarrow> enc_version a \<le> enc_version b"
  by (simp add: compareVersions_cmp3 cmp3_le)










section \<open>Sorting and loading the catalog\<close>

lemma set_insert_by: "set (insert_by cmp x ys) = insert x (set ys)"
  by (induction ys) auto

lemma sorted_insert_by:
  "sorted (map enc_version ys) \<Longrightarrow> sorted (map enc_version (insert_by compareVersions x ys))"
  by (induction ys) (auto simp: set_insert_by compareVersions_less)


lemma sorted_foldl_insert_by:
  "sorted (map enc_version acc) \<Longrightarrow>
     sorted (map enc_version (foldl (\<lambda>acc x. insert_by compareVersions x acc) acc xs))"
  by (induction xs arbitrary: acc) (auto simp: sorted_insert_by)


lemma sorted_js_sort: "sorted (map enc_version (js_sort compareVersions xs))"
  by (simp add: js_sort_def sorted_foldl_insert_by)

lemma enc_version_major: "enc_version a \<le> enc_version b \<Longrightarrow> major a \<le> major b"
  by (auto simp: enc_version_def less_eq_prod_def)

lemma sorted_major_js_sort: "sorted (map major (js_sort compareVersions xs))"
proof -
  have "sorted_wrt (\<lambda>a b. enc_version a \<le> enc_version b) (js_sort compareVersions xs)"
    using sorted_js_sort[of xs] by (simp add: sorted_map)
  then have "sorted_wrt (\<lambda>a b. major a \<le> major b) (js_sort compareVersions xs)"
    by (rule sorted_wrt_mono_rel[rotated]) (auto dest: enc_version_major)
  then show ?thesis by (simp add: sorted_map)
qed




lemma map_set_in: "(k', v') \<in> set (map_set k v m) \<Longrightarrow> (k', v') = (k, v) \<or> (k', v') \<in> set m"
  by (induction m) (auto split: if_splits)

lemma values_map_set: "snd ` set (map_set k v m) \<subseteq> insert v (snd ` set m)"
proof
  fix x assume "x \<in> snd ` set (map_set k v m)"
  then obtain k' where "(k', x) \<in> set (map_set k v m)" by auto
  then have "(k', x) = (k, v) \<or> (k', x) \<in> set m" by (rule map_set_in)
  then show "x \<in> insert v (snd ` set m)" by force
qed

lemma map_snd_map_set_absent:
  "k \<notin> fst ` set m \<Longrightarrow> map snd (map_set k v m) = map snd m @ [v]"
proof (induction m)
  case Nil
  show ?case by simp
next
  case (Cons p m)
  obtain k' v' where p: "p = (k', v')" by (cases p)
  show ?case using Cons by (cases "k' = k") (simp_all add: p)
qed

lemma map_f_map_set_present:
  "k \<in> fst ` set m \<Longrightarrow> (\<And>k' v'. (k', v') \<in> set m \<Longrightarrow> k' = k \<Longrightarrow> f v' = f v) \<Longrightarrow>
     map f (map snd (map_set k v m)) = map f (map snd m)"
proof (induction m)
  case Nil
  then show ?case by simp
next
  case (Cons p m)
  obtain k' v' where p: "p = (k', v')" by (cases p)
  show ?case
  proof (cases "k' = k")
    case True
    then have "f v' = f v" using Cons.prems(2)[of k' v'] by (simp add: p)
    with True show ?thesis by (simp add: p)
  next
    case False
    with Cons.prems(1) have "k \<in> fst ` set m" by (simp add: p)
    then have "map f (map snd (map_set k v m)) = map f (map snd m)"
      by (rule Cons.IH) (use Cons.prems(2) in auto)
    with False show ?thesis by (simp add: p)
  qed
qed

lemma keys_canonical_map_set:
  "keys_canonical m \<Longrightarrow> keys_canonical (map_set (version v) v m)"
  unfolding keys_canonical_def list_all_iff by (auto dest: map_set_in)

lemma load_Cons: "load m (x # xs) = load (map_set (version x) x m) xs"
  by (simp add: load_def)

lemma load_Nil: "load m [] = m"
  by (simp add: load_def)

lemma keys_canonical_load: "keys_canonical m \<Longrightarrow> keys_canonical (load m xs)"
  by (induction xs arbitrary: m) (auto simp: load_Cons load_Nil keys_canonical_map_set)




lemma sorted_load:
  fixes f :: "SemVer \<Rightarrow> 'a::linorder"
  assumes compat: "\<And>a b. a \<in> U \<Longrightarrow> b \<in> U \<Longrightarrow> version a = version b \<Longrightarrow> f a = f b"
    and "snd ` set m \<subseteq> U" "set xs \<subseteq> U" "keys_canonical m"
    and "sorted (map f (map snd m) @ map f xs)"
  shows "sorted (map f (map snd (load m xs)))"
  using assms(2-)
proof (induction xs arbitrary: m)
  case Nil
  then show ?case by (simp add: load_Nil)
next
  case (Cons x xs)
  let ?m = "map_set (version x) x m"
  have U: "snd ` set ?m \<subseteq> U"
    using values_map_set[of "version x" x m] Cons.prems(1,2) by auto
  have K: "keys_canonical ?m"
    using Cons.prems(3) by (rule keys_canonical_map_set)
  have S: "sorted (map f (map snd ?m) @ map f xs)"
  proof (cases "version x \<in> fst ` set m")
    case True
    have "f v' = f x" if kv: "(k', v') \<in> set m" "k' = version x" for k' v'
    proof -
      from kv have "version v' = version x"
        using Cons.prems(3) by (auto simp: keys_canonical_def list_all_iff)
      moreover have "v' \<in> U" using kv Cons.prems(1) by force
      moreover have "x \<in> U" using Cons.prems(2) by simp
      ultimately show "f v' = f x" by (rule compat[rotated 2])
    qed
    then have "map f (map snd ?m) = map f (map snd m)"
      by (rule map_f_map_set_present[OF True])
    with Cons.prems(4) show ?thesis by (auto simp: sorted_append)
  next
    case False
    then show ?thesis
      using Cons.prems(4) by (simp add: map_snd_map_set_absent)
  qed
  show ?case
    unfolding load_Cons using Cons.IH[OF U _ K S] Cons.prems(2) by simp
qed

lemma setVersions_load:
  "setVersions p val m0 = load [] (js_sort compareVersions (List.map_filter id (parse_items p val)))"
  by (simp add: setVersions_def load_def map_clear_def)


lemma keys_canonical_setVersions: "keys_canonical (setVersions p val m0)"
  unfolding setVersions_load by (rule keys_canonical_load) (simp add: keys_canonical_def)









lemma sorted_major_setVersions: "sorted (map major (versions (setVersions p val m0)))"
proof -
  let ?xs = "js_sort compareVersions (List.map_filter id (parse_items p val))"
  have compat: "major a = major b" if "a \<in> UNIV" "b \<in> UNIV" "version a = version b" for a b
    using that(3) by (rule version_triple)
  have 1: "snd ` set ([] :: catalog) \<subseteq> UNIV" by simp
  have 2: "set ?xs \<subseteq> UNIV" by simp
  have 3: "keys_canonical []" by (simp add: keys_canonical_def)
  have 4: "sorted (map major (map snd ([] :: catalog)) @ map major ?xs)"
    using sorted_major_js_sort[of "List.map_filter id (parse_items p val)"] by simp
  have "sorted (map major (map snd (load [] ?xs)))"
    using compat 1 2 3 4 by (rule sorted_load)
  then show ?thesis
    by (simp only: setVersions_load versions_def map_values_def)
qed



section \<open>Major classification\<close>

lemma stable_fold_Nil: "stable_fold s [] = s"
  by (simp add: stable_fold_def)

lemma stable_fold_Cons:
  "stable_fold s (v # vs) = stable_fold (if prerelease v = [] then set_add (major v) s else s) vs"
  by (simp add: stable_fold_def)

lemma set_set_add: "set (set_add x s) = insert x (set s)"
  by (auto simp: set_add_def)

lemma distinct_set_add: "distinct s \<Longrightarrow> distinct (set_add x s)"
  by (simp add: set_add_def)

lemma set_stable_fold:
  "set (stable_fold s vs) = set s \<union> {major v | v. v \<in> set vs \<and> prerelease v = []}"
  by (induction vs arbitrary: s) (auto simp: stable_fold_Nil stable_fold_Cons set_set_add)

lemma distinct_stable_fold: "distinct s \<Longrightarrow> distinct (stable_fold s vs)"
  by (induction vs arbitrary: s) (auto simp: stable_fold_Nil stable_fold_Cons distinct_set_add)

lemma sorted_stable_fold: "sorted (s @ map major vs) \<Longrightarrow> sorted (stable_fold s vs)"
proof (induction vs arbitrary: s)
  case Nil
  then show ?case by (simp add: stable_fold_Nil)
next
  case (Cons v vs)
  let ?s = "if prerelease v = [] then set_add (major v) s else s"
  have "sorted (?s @ map major vs)"
    using Cons.prems by (auto simp: set_add_def sorted_append)
  then show ?case unfolding stable_fold_Cons by (rule Cons.IH)
qed

lemma stableMajors_fold: "stableMajors m = stable_fold [] (versions m)"
  by (simp add: stableMajors_def stable_fold_def versions_def)

lemma set_stableMajors:
  "set (stableMajors m) = {major v | v. v \<in> set (versions m) \<and> prerelease v = []}"
  by (simp add: stableMajors_fold set_stable_fold)

lemma distinct_stableMajors: "distinct (stableMajors m)"
  by (simp add: stableMajors_fold distinct_stable_fold)

lemma sorted_stableMajors: "sorted (map major (versions m)) \<Longrightarrow> sorted (stableMajors m)"
  by (simp add: stableMajors_fold sorted_stable_fold)

lemma js_slice_last: "0 < n \<Longrightarrow> js_slice xs (- n) None = drop (length xs - nat n) xs"
  by (auto simp: js_slice_def clamp_index_def Let_def max_def nat_diff_distrib')

lemma js_slice_butlast: "0 < n \<Longrightarrow> js_slice xs 0 (Some (- n)) = take (length xs - nat n) xs"
  by (auto simp: js_slice_def clamp_index_def Let_def max_def nat_diff_distrib')

lemma supportedMajors_drop:
  "supportedMajors m = drop (length (stableMajors m) - 4) (stableMajors m)"
  by (simp add: supportedMajors_def NUM_SUPPORTED_MAJORS_def js_slice_last)

lemma obsoleteMajors_take:
  "obsoleteMajors m = take (length (stableMajors m) - 4) (stableMajors m)"
  by (simp add: obsoleteMajors_def NUM_SUPPORTED_MAJORS_def js_slice_butlast)

lemma set_foldl_add:
  "set (foldl (\<lambda>s ver. set_add (major ver) s) s vs) = set s \<union> major ` set vs"
  by (induction vs arbitrary: s) (auto simp: set_set_add)

lemma set_foldl_delete:
  "set (foldl (\<lambda>s ver. if prerelease ver = [] then set_delete (major ver) s else s) s vs)
     = set s - {major v | v. v \<in> set vs \<and> prerelease v = []}"
  by (induction vs arbitrary: s) (auto simp: set_delete_def)

lemma set_prereleaseMajors:
  "set (prereleaseMajors m) =
     major ` set (versions m) - {major v | v. v \<in> set (versions m) \<and> prerelease v = []}"
  by (simp add: prereleaseMajors_def Let_def set_foldl_delete set_foldl_add versions_def)

lemma strict_sorted_split:
  fixes xs :: "nat list"
  assumes "sorted_wrt (<) xs"
  shows "\<forall>x\<in>set (take n xs). \<forall>y\<in>set (drop n xs). x < y"
proof -
  have "sorted_wrt (<) (take n xs @ drop n xs)" using assms by simp
  then show ?thesis unfolding sorted_wrt_append by blast
qed

text \<open>
  Claim C7. For a catalog loaded from any document: \<open>stableMajors\<close> are the
  majors with a release without prerelease, a subset of the majors present, listed
  in strictly ascending order; \<open>supportedMajors\<close> are its last (up to) four
  entries, ascending, each greater than every other stable major;
  \<open>obsoleteMajors\<close> are the stable majors in front of them, that is the stable
  majors with the supported ones removed; and \<open>prereleaseMajors\<close> holds exactly
  the majors present all of whose releases are prereleases.
\<close>

theorem majors_classification:
  "set (stableMajors (setVersions semverParse val m)) \<subseteq> major ` set (versions (setVersions semverParse val m))
   \<and> set (stableMajors (setVersions semverParse val m))
       = {mj. \<exists>v \<in> set (versions (setVersions semverParse val m)). major v = mj \<and> prerelease v = []}
   \<and> sorted_wrt (<) (stableMajors (setVersions semverParse val m))
   \<and> supportedMajors (setVersions semverParse val m)
       = drop (length (stableMajors (setVersions semverParse val m)) - 4)
           (stableMajors (setVersions semverParse val m))
   \<and> length (supportedMajors (setVersions semverParse val m))
       = min 4 (length (stableMajors (setVersions semverParse val m)))
   \<and> sorted_wrt (<) (supportedMajors (setVersions semverParse val m))
   \<and> (\<forall>x \<in> set (stableMajors (setVersions semverParse val m))
            - set (supportedMajors (setVersions semverParse val m)).
        \<forall>y \<in> set (supportedMajors (setVersions semverParse val m)). x < y)
   \<and> stableMajors (setVersions semverParse val m)
       = obsoleteMajors (setVersions semverParse val m) @ supportedMajors (setVersions semverParse val m)
   \<and> set (obsoleteMajors (setVersions semverParse val m))
       = set (stableMajors (setVersions semverParse val m))
         - set (supportedMajors (setVersions semverParse val m))
   \<and> set (prereleaseMajors (setVersions semverParse val m))
       = {mj. (\<exists>v \<in> set (versions (setVersions semverParse val m)). major v = mj)
              \<and> (\<forall>v \<in> set (versions (setVersions semverParse val m)).
                    major v = mj \<longrightarrow> prerelease v \<noteq> [])}"
proof -
  let ?c = "setVersions semverParse val m"
  let ?st = "stableMajors ?c"
  let ?n = "length ?st - 4"
  have sup: "supportedMajors ?c = drop ?n ?st" by (rule supportedMajors_drop)
  have obs: "obsoleteMajors ?c = take ?n ?st" by (rule obsoleteMajors_take)
  have ss: "sorted_wrt (<) ?st"
    using sorted_stableMajors[OF sorted_major_setVersions, of semverParse val m]
      distinct_stableMajors[of ?c]
    by (simp add: strict_sorted_iff)
  have d: "distinct ?st" by (rule distinct_stableMajors)
  have 1: "set ?st \<subseteq> major ` set (versions ?c)"
    by (auto simp: set_stableMajors)
  have 2: "set ?st = {mj. \<exists>v \<in> set (versions ?c). major v = mj \<and> prerelease v = []}"
    by (auto simp: set_stableMajors)
  have 5: "length (supportedMajors ?c) = min 4 (length ?st)"
    unfolding sup by auto
  have 6: "sorted_wrt (<) (supportedMajors ?c)"
    unfolding sup using ss by (rule sorted_wrt_drop)
  have 8: "?st = obsoleteMajors ?c @ supportedMajors ?c"
    unfolding sup obs by simp
  have "set (take ?n ?st) \<inter> set (drop ?n ?st) = {}"
    using d by (rule set_take_disj_set_drop_if_distinct) simp
  moreover have "set ?st = set (take ?n ?st) \<union> set (drop ?n ?st)"
    by (metis append_take_drop_id set_append)
  ultimately have 9: "set (obsoleteMajors ?c) = set ?st - set (supportedMajors ?c)"
    unfolding sup obs by blast
  have 7: "\<forall>x \<in> set ?st - set (supportedMajors ?c). \<forall>y \<in> set (supportedMajors ?c). x < y"
    unfolding 9[symmetric] unfolding sup obs using ss by (rule strict_sorted_split)
  have 10: "set (prereleaseMajors ?c)
       = {mj. (\<exists>v \<in> set (versions ?c). major v = mj)
              \<and> (\<forall>v \<in> set (versions ?c). major v = mj \<longrightarrow> prerelease v \<noteq> [])}"
    unfolding set_prereleaseMajors by auto
  show ?thesis
    by (rule conjI[OF 1 conjI[OF 2 conjI[OF ss conjI[OF sup conjI[OF 5 conjI[OF 6
          conjI[OF 7 conjI[OF 8 conjI[OF 9 10]]]]]]]]])
qed

theorem majors_classification_witness:
  "stableMajors (setVersions demo_parse demo_releases []) = [8, 9, 10, 11, 12]
   \<and> supportedMajors (setVersions demo_parse demo_releases []) = [9, 10, 11, 12]
   \<and> obsoleteMajors (setVersions demo_parse demo_releases []) = [8]
   \<and> prereleaseMajors (setVersions demo_parse demo_releases []) = [13]
   \<and> map major (versions (setVersions demo_parse demo_releases [])) = [8, 9, 10, 11, 12, 12, 12, 13]
   \<and> set (stableMajors (setVersions demo_parse demo_releases []))
       - set (supportedMajors (setVersions demo_parse demo_releases [])) = {8}
   \<and> (8::nat) < 9"
proof -
  let ?c = "setVersions demo_parse demo_releases []"
  have a: "stableMajors ?c = [8, 9, 10, 11, 12]" by code_simp
  have b: "prereleaseMajors ?c = [13]" by code_simp
  have c: "map major (versions ?c) = [8, 9, 10, 11, 12, 12, 12, 13]" by code_simp
  note T = majors_classification[of demo_parse demo_releases "[]"]
  have s: "supportedMajors ?c = [9, 10, 11, 12]"
    using T a by simp
  have ob: "stableMajors ?c = obsoleteMajors ?c @ supportedMajors ?c"
    using T by blast
  have o: "obsoleteMajors ?c = [8]"
    using ob unfolding a s by simp
  have diff: "set (stableMajors ?c) - set (supportedMajors ?c) = {8}"
    unfolding a s by auto
  have lt: "(8::nat) < 9"
    using T a s diff by simp
  show ?thesis
    by (rule conjI[OF a conjI[OF s conjI[OF o conjI[OF b conjI[OF c conjI[OF diff lt]]]]]])
qed

section \<open>The inclusive range\<close>

lemma findIndexFrom_none: "\<not> (\<exists>x\<in>set xs. p x) \<Longrightarrow> findIndexFrom p k xs = - 1"
  by (induction xs arbitrary: k) auto

lemma findIndexFrom_some:
  "\<exists>x\<in>set xs. p x \<Longrightarrow> \<exists>i<length xs. findIndexFrom p k xs = k + int i \<and> p (xs ! i)"
proof (induction xs arbitrary: k)
  case Nil
  then show ?case by simp
next
  case (Cons x xs)
  show ?case
  proof (cases "p x")
    case True
    then show ?thesis by (intro exI[of _ 0]) simp
  next
    case False
    with Cons.prems have "\<exists>x\<in>set xs. p x" by auto
    then obtain i where "i < length xs" "findIndexFrom p (k + 1) xs = k + 1 + int i" "p (xs ! i)"
      using Cons.IH[of "k + 1"] by blast
    with False show ?thesis by (intro exI[of _ "Suc i"]) simp
  qed
qed

lemma findIndex_none: "\<not> (\<exists>x\<in>set xs. p x) \<Longrightarrow> findIndex p xs = - 1"
  by (simp add: findIndex_def findIndexFrom_none)

lemma findIndex_some:
  "\<exists>x\<in>set xs. p x \<Longrightarrow> \<exists>i<length xs. findIndex p xs = int i \<and> p (xs ! i)"
  using findIndexFrom_some[of xs p 0] by (simp add: findIndex_def)

lemma inRange_alt:
  "inRange m a b =
     js_slice (versions m)
       (min (findIndex (\<lambda>ver. version ver = to_string a) (versions m))
            (findIndex (\<lambda>ver. version ver = to_string b) (versions m)))
       (Some (max (findIndex (\<lambda>ver. version ver = to_string a) (versions m))
                  (findIndex (\<lambda>ver. version ver = to_string b) (versions m)) + 1))"
  by (simp add: inRange_def versions_def Let_def min_def max_def)

lemma inRange_commute: "inRange m a b = inRange m b a"
  unfolding inRange_alt by (simp add: min.commute max.commute)

lemma js_slice_within:
  "i \<le> j \<Longrightarrow> j < length xs \<Longrightarrow>
     js_slice xs (int i) (Some (int j + 1)) = take (j - i + 1) (drop i xs)"
proof -
  assume a: "i \<le> j" "j < length xs"
  then have 1: "clamp_index (int (length xs)) (int i) = int i"
    and 2: "clamp_index (int (length xs)) (int j + 1) = int j + 1"
    by (simp_all add: clamp_index_def)
  from a have 3: "nat (int j + 1 - int i) = j - i + 1" by linarith
  show ?thesis
    by (simp only: js_slice_def Let_def option.case 1 2 3 nat_int)
qed

lemma js_slice_subset: "set (js_slice xs s e) \<subseteq> set xs"
  unfolding js_slice_def Let_def by (meson set_take_subset set_drop_subset subset_trans)

lemma js_slice_none: "js_slice xs (- 1) (Some 0) = []"
  by (simp add: js_slice_def clamp_index_def Let_def)

lemma known_value:
  "keys_canonical m \<Longrightarrow> isVersion m a \<longleftrightarrow> (\<exists>v\<in>set (versions m). version v = to_string a)"
  by (force simp: keys_canonical_def isVersion_def map_has_def versions_def map_values_def list_all_iff)

lemma take_drop_ends:
  assumes "i \<le> j" "j < length xs"
  shows "xs ! i \<in> set (take (j - i + 1) (drop i xs))" "xs ! j \<in> set (take (j - i + 1) (drop i xs))"
proof -
  have l: "length (take (j - i + 1) (drop i xs)) = j - i + 1" using assms by simp
  have "take (j - i + 1) (drop i xs) ! 0 = xs ! i" using assms by simp
  moreover have "take (j - i + 1) (drop i xs) ! (j - i) = xs ! j" using assms by simp
  ultimately show "xs ! i \<in> set (take (j - i + 1) (drop i xs))"
    "xs ! j \<in> set (take (j - i + 1) (drop i xs))"
    using l by (metis nth_mem zero_less_Suc Suc_eq_plus1, metis nth_mem lessI Suc_eq_plus1)
qed

lemma inRange_known:
  assumes "keys_canonical m" "isVersion m a" "isVersion m b"
  shows "\<exists>i j. i < length (versions m) \<and> j < length (versions m)
           \<and> version (versions m ! i) = to_string a \<and> version (versions m ! j) = to_string b
           \<and> inRange m a b = take (max i j - min i j + 1) (drop (min i j) (versions m))
           \<and> versions m ! i \<in> set (inRange m a b) \<and> versions m ! j \<in> set (inRange m a b)"
proof -
  let ?vs = "versions m"
  from assms obtain i where i: "i < length ?vs"
    "findIndex (\<lambda>ver. version ver = to_string a) ?vs = int i" "version (?vs ! i) = to_string a"
    using findIndex_some[of ?vs "\<lambda>ver. version ver = to_string a"] known_value[of m a] by blast
  from assms obtain j where j: "j < length ?vs"
    "findIndex (\<lambda>ver. version ver = to_string b) ?vs = int j" "version (?vs ! j) = to_string b"
    using findIndex_some[of ?vs "\<lambda>ver. version ver = to_string b"] known_value[of m b] by blast
  have mm: "min i j \<le> max i j" "max i j < length ?vs" using i j by auto
  have "inRange m a b = js_slice ?vs (int (min i j)) (Some (int (max i j) + 1))"
    unfolding inRange_alt i j by (simp add: min_def max_def)
  then have r: "inRange m a b = take (max i j - min i j + 1) (drop (min i j) ?vs)"
    using js_slice_within[OF mm] by simp
  have "?vs ! min i j \<in> set (inRange m a b)" "?vs ! max i j \<in> set (inRange m a b)"
    unfolding r using take_drop_ends[OF mm] by auto
  then have "?vs ! i \<in> set (inRange m a b)" "?vs ! j \<in> set (inRange m a b)"
    by (auto simp: min_def max_def split: if_splits)
  with i j r show ?thesis by blast
qed

lemma inRange_unknown:
  assumes "keys_canonical m" "\<not> isVersion m a" "\<not> isVersion m b"
  shows "inRange m a b = []"
proof -
  have "findIndex (\<lambda>ver. version ver = to_string a) (versions m) = - 1"
    using assms known_value[of m a] by (intro findIndex_none) blast
  moreover have "findIndex (\<lambda>ver. version ver = to_string b) (versions m) = - 1"
    using assms known_value[of m b] by (intro findIndex_none) blast
  ultimately show ?thesis
    unfolding inRange_alt by (simp add: js_slice_none)
qed

lemma inRange_subset: "set (inRange m a b) \<subseteq> set (versions m)"
  unfolding inRange_alt by (rule js_slice_subset)

text \<open>
  Claim C5. On a catalog loaded from any document, \<^verbatim>\<open>inRange\<close> gives the
  same slice for \<open>(a, b)\<close> and \<open>(b, a)\<close>. When both are known, they stand at
  positions \<open>i\<close> and \<open>j\<close> of the catalog, the slice is the part of the
  catalog from the smaller to the greater of the two positions, both included,
  and so holds both endpoint versions.
\<close>

theorem inRange_commutative_inclusive:
  "inRange (setVersions semverParse val m) a b = inRange (setVersions semverParse val m) b a
   \<and> (isVersion (setVersions semverParse val m) a \<and> isVersion (setVersions semverParse val m) b \<longrightarrow>
        (\<exists>i j. i < length (versions (setVersions semverParse val m))
           \<and> j < length (versions (setVersions semverParse val m))
           \<and> version (versions (setVersions semverParse val m) ! i) = to_string a
           \<and> version (versions (setVersions semverParse val m) ! j) = to_string b
           \<and> inRange (setVersions semverParse val m) a b
               = take (max i j - min i j + 1)
                   (drop (min i j) (versions (setVersions semverParse val m)))
           \<and> versions (setVersions semverParse val m) ! i
               \<in> set (inRange (setVersions semverParse val m) a b)
           \<and> versions (setVersions semverParse val m) ! j
               \<in> set (inRange (setVersions semverParse val m) a b)))"
  using inRange_commute[of "setVersions semverParse val m" a b]
    inRange_known[OF keys_canonical_setVersions, of semverParse val m a b]
  by blast

theorem inRange_commutative_inclusive_witness:
  "isVersion (setVersions demo_parse demo_strings []) (Str ''13.0.0-nightly.1'')
   \<and> isVersion (setVersions demo_parse demo_strings []) (Sem v12_beta)
   \<and> inRange (setVersions demo_parse demo_strings []) (Str ''13.0.0-nightly.1'') (Sem v12_beta)
       = [v12_beta, v12_stable\<lparr>build := [''b5'']\<rparr>, v13_nightly]
   \<and> inRange (setVersions demo_parse demo_strings []) (Sem v12_beta) (Str ''13.0.0-nightly.1'')
       = [v12_beta, v12_stable\<lparr>build := [''b5'']\<rparr>, v13_nightly]
   \<and> v12_beta \<in> set (inRange (setVersions demo_parse demo_strings [])
         (Str ''13.0.0-nightly.1'') (Sem v12_beta))
   \<and> v13_nightly \<in> set (inRange (setVersions demo_parse demo_strings [])
         (Str ''13.0.0-nightly.1'') (Sem v12_beta))"
proof -
  let ?c = "setVersions demo_parse demo_strings []"
  have a: "isVersion ?c (Str ''13.0.0-nightly.1'')" by code_simp
  have b: "isVersion ?c (Sem v12_beta)" by code_simp
  have r: "inRange ?c (Str ''13.0.0-nightly.1'') (Sem v12_beta)
       = [v12_beta, v12_stable\<lparr>build := [''b5'']\<rparr>, v13_nightly]"
    by code_simp
  note T = inRange_commutative_inclusive[of demo_parse demo_strings "[]"
      "Str ''13.0.0-nightly.1''" "Sem v12_beta"]
  have r': "inRange ?c (Sem v12_beta) (Str ''13.0.0-nightly.1'')
       = [v12_beta, v12_stable\<lparr>build := [''b5'']\<rparr>, v13_nightly]"
    using T r by simp
  have m1: "v12_beta \<in> set (inRange ?c (Str ''13.0.0-nightly.1'') (Sem v12_beta))"
    unfolding r by simp
  have m2: "v13_nightly \<in> set (inRange ?c (Str ''13.0.0-nightly.1'') (Sem v12_beta))"
    unfolding r by simp
  show ?thesis
    by (rule conjI[OF a conjI[OF b conjI[OF r conjI[OF r' conjI[OF m1 m2]]]]])
qed

text \<open>
  Claim C10. \<^verbatim>\<open>inRange\<close> has no failing branch: for all arguments it returns
  versions of the catalog, and when neither argument is a known version both
  searches give -1 and the slice from -1 to 0 is empty.
\<close>

theorem inRange_total:
  "set (inRange (setVersions semverParse val m) a b) \<subseteq> set (versions (setVersions semverParse val m))
   \<and> (\<not> isVersion (setVersions semverParse val m) a \<and> \<not> isVersion (setVersions semverParse val m) b
        \<longrightarrow> inRange (setVersions semverParse val m) a b = [])"
  using inRange_subset[of "setVersions semverParse val m" a b]
    inRange_unknown[OF keys_canonical_setVersions, of semverParse val m a b]
  by blast

theorem inRange_total_witness:
  "\<not> isVersion (setVersions demo_parse demo_strings []) (Str ''1.0.0'')
   \<and> \<not> isVersion (setVersions demo_parse demo_strings []) (Sem (semver 9 0 0 []))
   \<and> inRange (setVersions demo_parse demo_strings []) (Str ''1.0.0'') (Sem (semver 9 0 0 [])) = []"
proof -
  let ?c = "setVersions demo_parse demo_strings []"
  have a: "\<not> isVersion ?c (Str ''1.0.0'')" by code_simp
  have b: "\<not> isVersion ?c (Sem (semver 9 0 0 []))" by code_simp
  have r: "inRange ?c (Str ''1.0.0'') (Sem (semver 9 0 0 [])) = []"
    using inRange_total[of demo_parse demo_strings "[]" "Str ''1.0.0''" "Sem (semver 9 0 0 [])"] a b
    by blast
  show ?thesis by (rule conjI[OF a conjI[OF b r]])
qed

section \<open>The bisection loop\<close>

lemma run_calls: "fst (run E m ver fiddle opts cs) = cs @ [fiddle]"
  by (auto simp: run_def spawn_def Let_def split: option.splits sum.splits prod.splits child_event.splits)

lemma replicate_snoc: "x # replicate n y @ [y] = x # replicate (Suc n) y"
  by (simp add: replicate_append_same)

lemma conclusive_recorded: "conclusive r \<Longrightarrow> r \<noteq> None"
  by (auto simp: conclusive_def)

lemma inv_final: "loop_inv vs fi f s \<Longrightarrow> loop_final vs fi f None s"
  unfolding loop_inv_def loop_final_def
  by (auto dest: in_set_butlastD conclusive_recorded)

lemma inv_passed:
  assumes "loop_inv vs fi f s" "left s + 1 < right s" "status r = test_passed"
  shows "loop_inv vs fi f
    (s\<lparr>testOrder := testOrder s @ [midpoint (left s) (right s)],
       calls := calls s @ [SrcFiddle f], result := Some r,
       results := (results s)(midpoint (left s) (right s) := Some r),
       left := midpoint (left s) (right s)\<rparr>)"
  using assms midpoint_between[of "left s" "right s"]
  unfolding loop_inv_def
  by (auto simp: replicate_append_same conclusive_def)

lemma inv_failed:
  assumes "loop_inv vs fi f s" "left s + 1 < right s" "status r = test_failed"
  shows "loop_inv vs fi f
    (s\<lparr>testOrder := testOrder s @ [midpoint (left s) (right s)],
       calls := calls s @ [SrcFiddle f], result := Some r,
       results := (results s)(midpoint (left s) (right s) := Some r),
       right := midpoint (left s) (right s)\<rparr>)"
  using assms midpoint_between[of "left s" "right s"]
  unfolding loop_inv_def
  by (auto simp: replicate_append_same conclusive_def)

lemma inv_inconclusive:
  assumes "loop_inv vs fi f s" "left s + 1 < right s"
  shows "loop_final vs fi f None
    (s\<lparr>testOrder := testOrder s @ [midpoint (left s) (right s)],
       calls := calls s @ [SrcFiddle f], result := Some r,
       results := (results s)(midpoint (left s) (right s) := Some r)\<rparr>)"
  using assms midpoint_between[of "left s" "right s"]
  unfolding loop_inv_def loop_final_def
  by (auto simp: replicate_append_same dest: conclusive_recorded)

lemma inv_thrown:
  assumes "loop_inv vs fi f s" "left s + 1 < right s"
  shows "loop_final vs fi f (Some e)
    (s\<lparr>testOrder := testOrder s @ [midpoint (left s) (right s)],
       calls := calls s @ [SrcFiddle f]\<rparr>)"
  using assms midpoint_between[of "left s" "right s"]
  unfolding loop_inv_def loop_final_def
  by (auto simp: replicate_append_same dest: conclusive_recorded)

lemma bisect_loop_final:
  "loop_inv vs fi f s \<Longrightarrow> bisect_loop E m opts vs f s = (e, s') \<Longrightarrow> loop_final vs fi f e s'"
proof (induction E m opts vs f s arbitrary: e s' rule: bisect_loop.induct)
  case (1 E m opts vs f s)
  show ?case
  proof (cases "left s + 1 < right s")
    case False
    then have "bisect_loop E m opts vs f s = (None, s)"
      by (subst bisect_loop.simps) simp
    with "1.prems" show ?thesis by (auto intro: inv_final)
  next
    case True
    let ?mid = "midpoint (left s) (right s)"
    let ?s1 = "s\<lparr>testOrder := testOrder s @ [?mid]\<rparr>"
    from True "1.prems"(1) midpoint_between[of "left s" "right s"]
    have "0 \<le> ?mid \<and> ?mid < int (length vs)"
      unfolding loop_inv_def by linarith
    then obtain ver where ver: "js_index vs ?mid = Some ver"
      by (auto simp: js_index_def)
    obtain cs y where run: "run E m (version ver) (SrcFiddle f) opts (calls s) = (cs, y)"
      by (cases "run E m (version ver) (SrcFiddle f) opts (calls s)")
    have run': "(cs, y) = run E m (version ver) (SrcFiddle f) opts (calls ?s1)"
      using run by simp
    have cs: "cs = calls s @ [SrcFiddle f]"
      using run_calls[of E m "version ver" "SrcFiddle f" opts "calls s"] run by simp
    show ?thesis
    proof (cases y)
      case (Inl ex)
      have "bisect_loop E m opts vs f s = (Some ex, ?s1\<lparr>calls := cs\<rparr>)"
        by (subst bisect_loop.simps) (simp add: True ver run Inl Let_def)
      with "1.prems"(2) have "e = Some ex" "s' = ?s1\<lparr>calls := cs\<rparr>" by auto
      then show ?thesis
        using inv_thrown[OF "1.prems"(1) True, of ex] by (simp add: cs)
    next
      case (Inr r)
      let ?s2 = "?s1\<lparr>calls := cs, result := Some r, results := (results ?s1)(?mid := Some r)\<rparr>"
      show ?thesis
      proof (cases "status r = test_passed")
        case p: True
        have eq: "bisect_loop E m opts vs f s = bisect_loop E m opts vs f (?s2\<lparr>left := ?mid\<rparr>)"
          by (subst bisect_loop.simps) (simp add: True ver run Inr Let_def p)
        have inv: "loop_inv vs fi f (?s2\<lparr>left := ?mid\<rparr>)"
          using inv_passed[OF "1.prems"(1) True p] by (simp add: cs)
        show ?thesis
          using "1.IH"(1)[OF True refl refl ver run' Inr refl p inv] "1.prems"(2) eq
          by simp
      next
        case np: False
        show ?thesis
        proof (cases "status r = test_failed")
          case q: True
          have eq: "bisect_loop E m opts vs f s = bisect_loop E m opts vs f (?s2\<lparr>right := ?mid\<rparr>)"
            by (subst bisect_loop.simps) (simp add: True ver run Inr Let_def np q)
          have inv: "loop_inv vs fi f (?s2\<lparr>right := ?mid\<rparr>)"
            using inv_failed[OF "1.prems"(1) True q] by (simp add: cs)
          show ?thesis
            using "1.IH"(2)[OF True refl refl ver run' Inr refl np q inv] "1.prems"(2) eq
            by simp
        next
          case nq: False
          have "bisect_loop E m opts vs f s = (None, ?s2)"
            by (subst bisect_loop.simps) (simp add: True ver run Inr Let_def np nq)
          with "1.prems"(2) have "e = None" "s' = ?s2" by auto
          then show ?thesis
            using inv_inconclusive[OF "1.prems"(1) True, of r] by (simp add: cs)
        qed
      qed
    qed
  qed
qed

lemma inv_initial: "loop_inv vs fi f (initial_state vs fi)"
  by (simp add: loop_inv_def initial_state_def)

lemma bisect_unfold:
  "bisect E m a b fi opts =
     (case create E fi of
        None \<Rightarrow> (Inl InvalidFiddle, initial_state (inRange m a b) fi)
      | Some f \<Rightarrow>
          (case bisect_loop E m opts (inRange m a b) f (initial_state (inRange m a b) fi) of
             (Some e, s) \<Rightarrow> (Inl e, s)
           | (None, s) \<Rightarrow> (bisect_finish (inRange m a b) s, s)))"
  unfolding bisect_def initial_state_def Let_def ..

lemma bisect_session:
  obtains (invalid) "create E fi = None" "bisect E m a b fi opts = (Inl InvalidFiddle, initial_state (inRange m a b) fi)"
  | (thrown) f e s where "create E fi = Some f" "bisect E m a b fi opts = (Inl e, s)"
      "loop_final (inRange m a b) fi f (Some e) s"
  | (finished) f s where "create E fi = Some f"
      "bisect E m a b fi opts = (bisect_finish (inRange m a b) s, s)"
      "loop_final (inRange m a b) fi f None s"
proof (cases "create E fi")
  case None
  then show ?thesis by (intro invalid) (simp_all add: bisect_unfold)
next
  case (Some f)
  obtain e s where l: "bisect_loop E m opts (inRange m a b) f (initial_state (inRange m a b) fi) = (e, s)"
    by (cases "bisect_loop E m opts (inRange m a b) f (initial_state (inRange m a b) fi)")
  have fin: "loop_final (inRange m a b) fi f e s"
    using inv_initial l by (rule bisect_loop_final)
  show ?thesis
  proof (cases e)
    case None
    with Some l fin show ?thesis by (intro finished[of f s]) (simp_all add: bisect_unfold)
  next
    case (Some ex)
    with \<open>create E fi = Some f\<close> l fin show ?thesis
      by (intro thrown[of f ex s]) (simp_all add: bisect_unfold)
  qed
qed

lemma final_untested:
  assumes "loop_final vs fi f e s"
  shows "results s 0 = None" "results s (int (length vs) - 1) = None"
  using assms unfolding loop_final_def by force+

lemma final_report_ok: "loop_final vs fi f None s \<Longrightarrow> report_ok vs s"
  unfolding loop_final_def report_ok_def list_all_iff by auto

lemma final_tested_index:
  assumes "loop_final vs fi f e s" "results s i \<noteq> None"
  shows "js_index vs i = Some (vs ! nat i)"
  using assms unfolding loop_final_def js_index_def by force

text \<open>How a session that leaves the loop without an exception ends.\<close>

lemma bisect_finish_final:
  assumes "loop_final vs fi f None s"
  shows "bisect_finish vs s =
     (if map_option status (results s (left s)) = Some test_passed
         \<and> map_option status (results s (right s)) = Some test_failed
      then Inr \<lparr>bisect_range = Some (version (vs ! nat (left s)), version (vs ! nat (right s))),
                bisect_status = bisect_succeeded\<rparr>
      else Inl TypeError)"
proof -
  note ok = final_report_ok[OF assms]
  have l: "left s = 0 \<or> map_option status (results s (left s)) = Some test_passed"
    and r: "right s = int (length vs) - 1
        \<or> map_option status (results s (right s)) = Some test_failed"
    using assms unfolding loop_final_def by blast+
  show ?thesis
  proof (cases "map_option status (results s (left s)) = Some test_passed")
    case False
    with l have "results s (left s) = None"
      using final_untested(1)[OF assms] by auto
    with False ok show ?thesis by (simp add: bisect_finish_def)
  next
    case True
    then obtain rl where rl: "results s (left s) = Some rl" "status rl = test_passed" by auto
    show ?thesis
    proof (cases "map_option status (results s (right s)) = Some test_failed")
      case False
      with r have "results s (right s) = None"
        using final_untested(2)[OF assms] by auto
      with False ok rl show ?thesis by (simp add: bisect_finish_def)
    next
      case t: True
      then obtain rr where rr: "results s (right s) = Some rr" "status rr = test_failed" by auto
      have "js_index vs (left s) = Some (vs ! nat (left s))"
        "js_index vs (right s) = Some (vs ! nat (right s))"
        using final_tested_index[OF assms] rl rr by auto
      with True t ok rl rr show ?thesis by (simp add: bisect_finish_def)
    qed
  qed
qed

text \<open>No session returns an error result: a session that does not succeed throws.\<close>

lemma bisect_returns_only_success:
  assumes "fst (bisect E m a b fi opts) = Inr res"
  shows "bisect_status res = bisect_succeeded"
proof (cases rule: bisect_session[of E fi m a b opts])
  case invalid
  with assms show ?thesis by simp
next
  case (thrown f e s)
  with assms show ?thesis by simp
next
  case (finished f s)
  with assms show ?thesis
    by (auto simp: bisect_finish_final split: if_splits)
qed

lemma bounded_distinct_length:
  fixes xs :: "int list"
  assumes "distinct xs" "\<forall>i \<in> set xs. 0 < i \<and> i < int n - 1"
  shows "length xs \<le> n - 2"
proof -
  have "set xs \<subseteq> {1 ..< int n - 1}" using assms(2) by auto
  then have "card (set xs) \<le> card {1 ..< int n - 1}" by (intro card_mono) simp_all
  with assms(1) show ?thesis by (simp add: distinct_card)
qed

lemma bisect_tests:
  "(\<forall>i \<in> set (testOrder (snd (bisect E m a b fi opts))).
       0 < i \<and> i < int (length (inRange m a b)) - 1)
   \<and> distinct (testOrder (snd (bisect E m a b fi opts)))"
proof (cases rule: bisect_session[of E fi m a b opts])
  case invalid
  then show ?thesis by (simp add: initial_state_def)
next
  case (thrown f e s)
  then show ?thesis unfolding loop_final_def by simp
next
  case (finished f s)
  then show ?thesis unfolding loop_final_def by simp
qed

text \<open>Every test but the last moved the window: an inconclusive test ends the loop.\<close>

lemma bisect_inconclusive_is_last:
  "\<forall>i \<in> set (butlast (testOrder (snd (bisect E m a b fi opts)))).
     conclusive (results (snd (bisect E m a b fi opts)) i)"
proof (cases rule: bisect_session[of E fi m a b opts])
  case invalid
  then show ?thesis by (simp add: initial_state_def)
next
  case (thrown f e s)
  then show ?thesis unfolding loop_final_def by simp
next
  case (finished f s)
  then show ?thesis unfolding loop_final_def by simp
qed

lemma bisect_calls:
  "(create E fi = None \<longrightarrow>
      calls (snd (bisect E m a b fi opts)) = [fi] \<and> testOrder (snd (bisect E m a b fi opts)) = [])
   \<and> (create E fi = Some f \<longrightarrow>
      calls (snd (bisect E m a b fi opts))
        = fi # replicate (length (testOrder (snd (bisect E m a b fi opts)))) (SrcFiddle f))"
proof (cases rule: bisect_session[of E fi m a b opts])
  case invalid
  then show ?thesis by (simp add: initial_state_def)
next
  case (thrown f e s)
  then show ?thesis unfolding loop_final_def by simp
next
  case (finished f s)
  then show ?thesis unfolding loop_final_def by simp
qed


text \<open>
  Claim C1 (the code differs). Two sessions on the catalog of the examples. On the
  slice 9.0.0, 10.0.0, 11.0.0 the only test (10.0.0) fails; the window converges
  to (0, 1) without a passed left end, and the session throws \<^verbatim>\<open>TypeError\<close>
  on \<^verbatim>\<open>results[left].status\<close> instead of returning an error result. On the
  whole catalog, 12.0.0-nightly.7 passes, 12.0.0 fails and 12.0.0-beta.1 between
  them exits abnormally; the loop stops there and the session returns a success
  whose pair is two positions apart, without the terminating cause.
\<close>

theorem bisect_end_states_diverge:
  "fst (bisect (demo_env [(''/electron/10.0.0'', ExitEvent (Some 1))]) demo_catalog
         (Str ''9.0.0'') (Str ''11.0.0'') (SrcString ''gist:demo'') DefaultRunnerOpts)
     = Inl TypeError
   \<and> left (snd (bisect (demo_env [(''/electron/10.0.0'', ExitEvent (Some 1))]) demo_catalog
         (Str ''9.0.0'') (Str ''11.0.0'') (SrcString ''gist:demo'') DefaultRunnerOpts)) = 0
   \<and> right (snd (bisect (demo_env [(''/electron/10.0.0'', ExitEvent (Some 1))]) demo_catalog
         (Str ''9.0.0'') (Str ''11.0.0'') (SrcString ''gist:demo'') DefaultRunnerOpts)) = 1
   \<and> fst (bisect (demo_env [(''/electron/12.0.0-nightly.7'', ExitEvent (Some 0)),
              (''/electron/12.0.0'', ExitEvent (Some 1)),
              (''/electron/12.0.0-beta.1'', ExitEvent (Some 2))])
         demo_catalog (Str ''8.0.0'') (Str ''13.0.0-nightly.1'') (SrcString ''gist:demo'')
         DefaultRunnerOpts)
     = Inr \<lparr>bisect_range = Some (''12.0.0-nightly.7'', ''12.0.0''),
            bisect_status = bisect_succeeded\<rparr>
   \<and> testOrder (snd (bisect (demo_env [(''/electron/12.0.0-nightly.7'', ExitEvent (Some 0)),
              (''/electron/12.0.0'', ExitEvent (Some 1)),
              (''/electron/12.0.0-beta.1'', ExitEvent (Some 2))])
         demo_catalog (Str ''8.0.0'') (Str ''13.0.0-nightly.1'') (SrcString ''gist:demo'')
         DefaultRunnerOpts)) = [4, 6, 5]
   \<and> result (snd (bisect (demo_env [(''/electron/12.0.0-nightly.7'', ExitEvent (Some 0)),
              (''/electron/12.0.0'', ExitEvent (Some 1)),
              (''/electron/12.0.0-beta.1'', ExitEvent (Some 2))])
         demo_catalog (Str ''8.0.0'') (Str ''13.0.0-nightly.1'') (SrcString ''gist:demo'')
         DefaultRunnerOpts)) = Some \<lparr>status = test_error\<rparr>"
  by code_simp




text \<open>
  Claim C3 (the code differs). On the slice 8.0.0, 9.0.0, 10.0.0 the test of 9.0.0
  exits abnormally. Nothing else is tested and the outcome stays recorded, but the
  session throws \<^verbatim>\<open>TypeError\<close> instead of returning the error result that
  carries \<^verbatim>\<open>test_error\<close>.
\<close>

theorem bisect_inconclusive_throws:
  "fst (bisect (demo_env [(''/electron/9.0.0'', ExitEvent (Some 2))]) demo_catalog
         (Str ''8.0.0'') (Str ''10.0.0'') (SrcString ''gist:demo'') DefaultRunnerOpts)
     = Inl TypeError
   \<and> testOrder (snd (bisect (demo_env [(''/electron/9.0.0'', ExitEvent (Some 2))]) demo_catalog
         (Str ''8.0.0'') (Str ''10.0.0'') (SrcString ''gist:demo'') DefaultRunnerOpts)) = [1]
   \<and> results (snd (bisect (demo_env [(''/electron/9.0.0'', ExitEvent (Some 2))]) demo_catalog
         (Str ''8.0.0'') (Str ''10.0.0'') (SrcString ''gist:demo'') DefaultRunnerOpts)) 1
     = Some \<lparr>status = test_error\<rparr>
   \<and> result (snd (bisect (demo_env [(''/electron/9.0.0'', ExitEvent (Some 2))]) demo_catalog
         (Str ''8.0.0'') (Str ''10.0.0'') (SrcString ''gist:demo'') DefaultRunnerOpts))
     = Some \<lparr>status = test_error\<rparr>"
  by code_simp

text \<open>
  Claim C8 (counterexample). A session with one test calls the payload resolver
  twice: \<^verbatim>\<open>bisect\<close> with the caller's descriptor, then \<^verbatim>\<open>spawn\<close> with
  the resolved payload.
\<close>

theorem bisect_resolver_called_twice:
  "calls (snd (bisect (demo_env [(''/electron/10.0.0'', ExitEvent (Some 1))]) demo_catalog
         (Str ''9.0.0'') (Str ''11.0.0'') (SrcString ''gist:demo'') DefaultRunnerOpts))
     = [SrcString ''gist:demo'', SrcFiddle demo_fiddle]
   \<and> length (calls (snd (bisect (demo_env [(''/electron/10.0.0'', ExitEvent (Some 1))])
         demo_catalog (Str ''9.0.0'') (Str ''11.0.0'') (SrcString ''gist:demo'')
         DefaultRunnerOpts))) \<noteq> 1"
proof -
  have "calls (snd (bisect (demo_env [(''/electron/10.0.0'', ExitEvent (Some 1))]) demo_catalog
         (Str ''9.0.0'') (Str ''11.0.0'') (SrcString ''gist:demo'') DefaultRunnerOpts))
     = [SrcString ''gist:demo'', SrcFiddle demo_fiddle]"
    by code_simp
  then show ?thesis by simp
qed

text \<open>
  Claim C8 (amended). \<^verbatim>\<open>bisect\<close> itself calls the payload resolver once, with
  the caller's descriptor, before any test. Every test calls it once more, with
  the payload that first call resolved. A session with \<open>n\<close> tests makes
  \<open>1 + n\<close> calls; when the first call fails there is no test and no other call.
\<close>

theorem bisect_resolver_calls:
  "(create E fiddleIn = None \<longrightarrow>
      calls (snd (bisect E m a b fiddleIn opts)) = [fiddleIn]
      \<and> testOrder (snd (bisect E m a b fiddleIn opts)) = [])
   \<and> (create E fiddleIn = Some fiddle \<longrightarrow>
      calls (snd (bisect E m a b fiddleIn opts))
        = fiddleIn # replicate (length (testOrder (snd (bisect E m a b fiddleIn opts))))
            (SrcFiddle fiddle)
      \<and> length (calls (snd (bisect E m a b fiddleIn opts)))
        = 1 + length (testOrder (snd (bisect E m a b fiddleIn opts))))"
  using bisect_calls[of E fiddleIn m a b opts fiddle] by simp

theorem bisect_resolver_calls_witness:
  "create (demo_env []) (SrcString ''gist:none'') = None
   \<and> calls (snd (bisect (demo_env []) demo_catalog (Str ''8.0.0'') (Str ''13.0.0-nightly.1'')
        (SrcString ''gist:none'') DefaultRunnerOpts)) = [SrcString ''gist:none'']
   \<and> create (demo_env [(''/electron/12.0.0-nightly.7'', ExitEvent (Some 0)),
              (''/electron/12.0.0'', ExitEvent (Some 1)),
              (''/electron/12.0.0-beta.1'', ExitEvent (Some 2))]) (SrcString ''gist:demo'')
       = Some demo_fiddle
   \<and> testOrder (snd (bisect (demo_env [(''/electron/12.0.0-nightly.7'', ExitEvent (Some 0)),
              (''/electron/12.0.0'', ExitEvent (Some 1)),
              (''/electron/12.0.0-beta.1'', ExitEvent (Some 2))])
         demo_catalog (Str ''8.0.0'') (Str ''13.0.0-nightly.1'') (SrcString ''gist:demo'')
         DefaultRunnerOpts)) = [4, 6, 5]
   \<and> calls (snd (bisect (demo_env [(''/electron/12.0.0-nightly.7'', ExitEvent (Some 0)),
              (''/electron/12.0.0'', ExitEvent (Some 1)),
              (''/electron/12.0.0-beta.1'', ExitEvent (Some 2))])
         demo_catalog (Str ''8.0.0'') (Str ''13.0.0-nightly.1'') (SrcString ''gist:demo'')
         DefaultRunnerOpts))
       = [SrcString ''gist:demo'', SrcFiddle demo_fiddle, SrcFiddle demo_fiddle,
          SrcFiddle demo_fiddle]"
proof -
  let ?E = "demo_env [(''/electron/12.0.0-nightly.7'', ExitEvent (Some 0)),
              (''/electron/12.0.0'', ExitEvent (Some 1)),
              (''/electron/12.0.0-beta.1'', ExitEvent (Some 2))]"
  have 1: "create (demo_env []) (SrcString ''gist:none'') = None"
    by (simp add: demo_env_def)
  have 2: "calls (snd (bisect (demo_env []) demo_catalog (Str ''8.0.0'')
        (Str ''13.0.0-nightly.1'') (SrcString ''gist:none'') DefaultRunnerOpts))
      = [SrcString ''gist:none'']"
    using bisect_resolver_calls[of "demo_env []" "SrcString ''gist:none''" demo_catalog
        "Str ''8.0.0''" "Str ''13.0.0-nightly.1''" DefaultRunnerOpts] 1 by blast
  have 3: "create ?E (SrcString ''gist:demo'') = Some demo_fiddle"
    by (simp add: demo_env_def)
  have 4: "testOrder (snd (bisect ?E demo_catalog (Str ''8.0.0'') (Str ''13.0.0-nightly.1'')
        (SrcString ''gist:demo'') DefaultRunnerOpts)) = [4, 6, 5]"
    by code_simp
  have 5: "calls (snd (bisect ?E demo_catalog (Str ''8.0.0'') (Str ''13.0.0-nightly.1'')
        (SrcString ''gist:demo'') DefaultRunnerOpts))
      = [SrcString ''gist:demo'', SrcFiddle demo_fiddle, SrcFiddle demo_fiddle,
         SrcFiddle demo_fiddle]"
    using bisect_resolver_calls[of ?E "SrcString ''gist:demo''" demo_catalog
        "Str ''8.0.0''" "Str ''13.0.0-nightly.1''" DefaultRunnerOpts demo_fiddle] 3
    unfolding 4 by (simp add: numeral_3_eq_3)
  show ?thesis
    by (rule conjI[OF 1 conjI[OF 2 conjI[OF 3 conjI[OF 4 5]]]])
qed

text \<open>
  Claim C9. While the loop runs (\<open>l + 1 < r\<close>) the midpoint lies strictly
  between the ends, so either assignment makes the window narrower. In every
  session the tested indices are strictly between the first and the last index of
  the slice, no index is tested twice, and at most \<open>length - 2\<close> tests run: the
  loop ends, and the two end versions are never tested.
\<close>

theorem bisect_midpoint_inside:
  "(l + 1 < r \<longrightarrow>
      l < midpoint l r \<and> midpoint l r < r
      \<and> r - midpoint l r < r - l \<and> midpoint l r - l < r - l)
   \<and> (\<forall>i \<in> set (testOrder (snd (bisect E m a b fiddleIn opts))).
        0 < i \<and> i < int (length (inRange m a b)) - 1)
   \<and> distinct (testOrder (snd (bisect E m a b fiddleIn opts)))
   \<and> length (testOrder (snd (bisect E m a b fiddleIn opts))) \<le> length (inRange m a b) - 2"
proof -
  have 1: "l + 1 < r \<longrightarrow>
      l < midpoint l r \<and> midpoint l r < r
      \<and> r - midpoint l r < r - l \<and> midpoint l r - l < r - l"
    using midpoint_between[of l r] by auto
  note t = bisect_tests[of E m a b fiddleIn opts]
  have 2: "length (testOrder (snd (bisect E m a b fiddleIn opts))) \<le> length (inRange m a b) - 2"
    using t by (intro bounded_distinct_length) auto
  from 1 t 2 show ?thesis by blast
qed

theorem bisect_midpoint_inside_witness:
  "(0::int) + 1 < 7 \<and> midpoint 0 7 = 4
   \<and> length (inRange demo_catalog (Str ''8.0.0'') (Str ''13.0.0-nightly.1'')) = 8
   \<and> testOrder (snd (bisect (demo_env [(''/electron/12.0.0-nightly.7'', ExitEvent (Some 0)),
              (''/electron/12.0.0'', ExitEvent (Some 1)),
              (''/electron/12.0.0-beta.1'', ExitEvent (Some 2))])
         demo_catalog (Str ''8.0.0'') (Str ''13.0.0-nightly.1'') (SrcString ''gist:demo'')
         DefaultRunnerOpts)) = [4, 6, 5]
   \<and> 0 < midpoint 0 7 \<and> midpoint 0 7 < 7"
proof -
  let ?E = "demo_env [(''/electron/12.0.0-nightly.7'', ExitEvent (Some 0)),
              (''/electron/12.0.0'', ExitEvent (Some 1)),
              (''/electron/12.0.0-beta.1'', ExitEvent (Some 2))]"
  have 1: "midpoint 0 7 = 4" by (simp add: midpoint_eq)
  have 2: "length (inRange demo_catalog (Str ''8.0.0'') (Str ''13.0.0-nightly.1'')) = 8"
    by code_simp
  have 3: "testOrder (snd (bisect ?E demo_catalog (Str ''8.0.0'') (Str ''13.0.0-nightly.1'')
        (SrcString ''gist:demo'') DefaultRunnerOpts)) = [4, 6, 5]"
    by code_simp
  have 4: "0 < midpoint 0 7 \<and> midpoint 0 7 < 7"
    using bisect_midpoint_inside[of 0 7 ?E demo_catalog "Str ''8.0.0''"
        "Str ''13.0.0-nightly.1''" "SrcString ''gist:demo''" DefaultRunnerOpts]
    by simp
  from 1 2 3 4 show ?thesis by simp
qed

end
